theory Spec2Isabelle
  imports Complex_Main "HOL-Library.Log_Nat"
begin

section \<open>Numbers of the notebooks\<close>

text \<open>
  The notebooks compute with the scalars of numpy and scipy: \<^verbatim>\<open>target_dist.pdf\<close>,
  \<^verbatim>\<open>proposal_dist.rvs()\<close> and \<^verbatim>\<open>uniform.rvs()\<close> return \<^verbatim>\<open>numpy.float64\<close>
  (the target of the notebook is \<^verbatim>\<open>norm(0,1)\<close> of scipy.stats), an IEEE 754 binary64
  number: a finite value, one of the two zeros, one of the two infinities, or
  not-a-number. \<open>Fin 0\<close> is \<^verbatim>\<open>+0.0\<close> and \<open>NZero\<close> is \<^verbatim>\<open>-0.0\<close>. Arithmetic on them never
  raises: a zero divisor gives an infinity or not-a-number, and every finite result is
  rounded to the nearest binary64 number, ties to even.

  The type has a value \<open>Fin r\<close> for every real \<open>r\<close>; the binary64 numbers are those with
  \<open>\<bar>r\<bar> = k * 2 powi e\<close>, \<open>k < 2 ^ 53\<close> and \<open>- 1074 \<le> e \<le> 971\<close>, and rounding leaves
  them as they are (\<open>round64_exact\<close>). An integer of
  Python (\<^verbatim>\<open>initial = 1\<close>, the literal \<^verbatim>\<open>1\<close> of \<^verbatim>\<open>min\<close>) is the binary64 number of the
  same value.
\<close>

datatype float64 = Fin real | NZero | PInf | NInf | NaN

text \<open>The integer nearest to a real, the even one of two that are equally near.\<close>

definition rne :: "real \<Rightarrow> int" where
  "rne x = (let f = \<lfloor>x\<rfloor>; d = x - of_int f in
            if d < 1/2 then f else if 1/2 < d then f + 1 else if even f then f else f + 1)"

text \<open>
  The binary exponent \<open>e\<close> of a positive real \<open>r\<close>, with \<open>2 powi e \<le> r < 2 powi (e + 1)\<close>
  (\<open>exponent_le\<close>, \<open>exponent_less\<close>).
\<close>

definition exponent :: "real \<Rightarrow> int" where
  "exponent r = (if 1 \<le> r then bitlen \<lfloor>r\<rfloor> - 1 else - bitlen (\<lceil>1 / r\<rceil> - 1))"

text \<open>
  The binary64 number of sign \<open>neg\<close> whose magnitude is nearest to \<open>m \<ge> 0\<close>: 53 bits
  of precision, the spacing of the subnormal numbers \<open>2 powi (- 1074)\<close> below
  \<open>2 powi (- 1022)\<close>, and an infinity from \<open>2 ^ 1024\<close> on.
\<close>

definition round64 :: "bool \<Rightarrow> real \<Rightarrow> float64" where
  "round64 neg m =
     (let ulp = 2 powi (max (exponent m) (- 1022) - 52);
          v = of_int (rne (m / ulp)) * ulp
      in if 2 ^ 1024 \<le> v then (if neg then NInf else PInf)
         else if v = 0 then (if neg then NZero else Fin 0)
         else Fin (if neg then - v else v))"

text \<open>
  The sum and the quotient of two finite numbers (the divisor not zero): the real result,
  rounded once. A sum that is exactly zero is \<^verbatim>\<open>+0.0\<close>.
\<close>

definition fin_add :: "real \<Rightarrow> real \<Rightarrow> float64" where
  "fin_add a b = (if a + b = 0 then Fin 0 else round64 (a + b < 0) \<bar>a + b\<bar>)"

definition fin_div :: "real \<Rightarrow> real \<Rightarrow> float64" where
  "fin_div a b = round64 ((a < 0) \<noteq> (b < 0)) (\<bar>a\<bar> / \<bar>b\<bar>)"

text \<open>\<^verbatim>\<open>a + b\<close>\<close>

fun np_add :: "float64 \<Rightarrow> float64 \<Rightarrow> float64" where
  "np_add NaN b = NaN"
| "np_add a NaN = NaN"
| "np_add PInf NInf = NaN"
| "np_add NInf PInf = NaN"
| "np_add PInf b = PInf"
| "np_add a PInf = PInf"
| "np_add NInf b = NInf"
| "np_add a NInf = NInf"
| "np_add NZero NZero = NZero"
| "np_add NZero (Fin b) = Fin b"
| "np_add (Fin a) NZero = Fin a"
| "np_add (Fin a) (Fin b) = fin_add a b"

text \<open>
  \<^verbatim>\<open>a / b\<close>: no exception; \<^verbatim>\<open>0/0\<close> and \<^verbatim>\<open>inf/inf\<close> are not-a-number, the sign of a
  zero or an infinity is the product of the signs.
\<close>

fun np_div :: "float64 \<Rightarrow> float64 \<Rightarrow> float64" where
  "np_div NaN b = NaN"
| "np_div a NaN = NaN"
| "np_div PInf PInf = NaN"
| "np_div PInf NInf = NaN"
| "np_div NInf PInf = NaN"
| "np_div NInf NInf = NaN"
| "np_div PInf (Fin b) = (if 0 \<le> b then PInf else NInf)"
| "np_div PInf NZero = NInf"
| "np_div NInf (Fin b) = (if 0 \<le> b then NInf else PInf)"
| "np_div NInf NZero = PInf"
| "np_div (Fin a) PInf = (if 0 \<le> a then Fin 0 else NZero)"
| "np_div (Fin a) NInf = (if 0 \<le> a then NZero else Fin 0)"
| "np_div NZero PInf = NZero"
| "np_div NZero NInf = Fin 0"
| "np_div (Fin a) (Fin b) =
     (if b = 0 then (if a = 0 then NaN else if 0 < a then PInf else NInf)
      else fin_div a b)"
| "np_div (Fin a) NZero = (if a = 0 then NaN else if 0 < a then NInf else PInf)"
| "np_div NZero (Fin b) = (if b = 0 then NaN else if 0 < b then NZero else Fin 0)"
| "np_div NZero NZero = NaN"

text \<open>
  \<^verbatim>\<open>a < b\<close> and \<^verbatim>\<open>a <= b\<close>: every comparison with not-a-number is false, and the two
  zeros are equal.
\<close>

fun np_lt :: "float64 \<Rightarrow> float64 \<Rightarrow> bool" where
  "np_lt NaN b = False"
| "np_lt a NaN = False"
| "np_lt (Fin a) (Fin b) = (a < b)"
| "np_lt (Fin a) NZero = (a < 0)"
| "np_lt NZero (Fin b) = (0 < b)"
| "np_lt NZero NZero = False"
| "np_lt PInf b = False"
| "np_lt a PInf = True"
| "np_lt a NInf = False"
| "np_lt NInf b = True"

fun np_le :: "float64 \<Rightarrow> float64 \<Rightarrow> bool" where
  "np_le NaN b = False"
| "np_le a NaN = False"
| "np_le (Fin a) (Fin b) = (a \<le> b)"
| "np_le (Fin a) NZero = (a \<le> 0)"
| "np_le NZero (Fin b) = (0 \<le> b)"
| "np_le NZero NZero = True"
| "np_le a PInf = True"
| "np_le NInf b = True"
| "np_le PInf b = False"
| "np_le a NInf = False"

text \<open>
  The builtin \<^verbatim>\<open>min(a, b)\<close> of Python keeps its first argument unless the second is
  strictly smaller, so \<^verbatim>\<open>min(nan, 1)\<close> is \<^verbatim>\<open>nan\<close>.
\<close>

definition py_min :: "float64 \<Rightarrow> float64 \<Rightarrow> float64" where
  "py_min a b = (if np_lt b a then b else a)"

section \<open>The Metropolis-Hastings sampler\<close>

text \<open>
  \<^verbatim>\<open>a = min(target_dist.pdf(y)/target_dist.pdf(x), 1)\<close>, from the two density values.
\<close>

definition acceptance :: "float64 \<Rightarrow> float64 \<Rightarrow> float64" where
  "acceptance py px = py_min (np_div py px) (Fin 1)"

text \<open>
  One pass through the body of the loop, after its two draws: \<open>y\<close> is the candidate and
  \<open>u\<close> the uniform draw; the state is the pair of the variables \<^verbatim>\<open>x\<close> and
  \<^verbatim>\<open>samples\<close>. The density is the caller's \<^verbatim>\<open>target_dist.pdf\<close>; it may raise, and
  nothing in \<^verbatim>\<open>MH\<close> catches: \<open>Inl e\<close> is the exception \<open>e\<close> leaving the function.
  Python evaluates \<^verbatim>\<open>pdf(y)\<close> before \<^verbatim>\<open>pdf(x)\<close>.
\<close>

definition MH_body ::
  "(float64 \<Rightarrow> 'e + float64) \<Rightarrow> float64 \<Rightarrow> float64 \<Rightarrow> float64 \<times> float64 list
     \<Rightarrow> 'e + float64 \<times> float64 list" where
  "MH_body pdf y u s =
     (case s of (x, samples) \<Rightarrow>
        (case pdf y of
           Inl e \<Rightarrow> Inl e
         | Inr py \<Rightarrow>
             (case pdf x of
                Inl e \<Rightarrow> Inl e
              | Inr px \<Rightarrow>
                  (let a = acceptance py px in
                   if np_le u a then Inr (y, samples @ [y])
                   else Inr (x, samples @ [x])))))"

text \<open>
  \<^verbatim>\<open>for _ in range(n)\<close> of \<^verbatim>\<open>MH(initial, target_dist, proposal_dist, n)\<close>: \<open>m\<close>
  passes are left and \<open>k\<close> have been made. The random source is given by what it
  returns: \<open>rvs k\<close> is the value of \<^verbatim>\<open>proposal_dist.rvs()\<close> in pass \<open>k\<close> (counted from
  0) and \<open>urvs k\<close> the value of \<^verbatim>\<open>uniform.rvs()\<close> there.
\<close>

fun MH_loop ::
  "(float64 \<Rightarrow> 'e + float64) \<Rightarrow> (nat \<Rightarrow> float64) \<Rightarrow> (nat \<Rightarrow> float64) \<Rightarrow> nat \<Rightarrow> nat
     \<Rightarrow> float64 \<times> float64 list \<Rightarrow> 'e + float64 \<times> float64 list" where
  "MH_loop pdf rvs urvs 0 k s = Inr s"
| "MH_loop pdf rvs urvs (Suc m) k s =
     (case MH_body pdf (np_add (fst s) (rvs k)) (urvs k) s of
        Inl e \<Rightarrow> Inl e
      | Inr s' \<Rightarrow> MH_loop pdf rvs urvs m (Suc k) s')"

text \<open>
  \<^verbatim>\<open>MH\<close>: \<^verbatim>\<open>range(n)\<close> is empty for \<open>n \<le> 0\<close>, and the function returns
  \<^verbatim>\<open>samples\<close>.
\<close>

definition MH ::
  "float64 \<Rightarrow> (float64 \<Rightarrow> 'e + float64) \<Rightarrow> (nat \<Rightarrow> float64) \<Rightarrow> (nat \<Rightarrow> float64) \<Rightarrow> int
     \<Rightarrow> 'e + float64 list" where
  "MH initial pdf rvs urvs n =
     (case MH_loop pdf rvs urvs (nat n) 0 (initial, []) of
        Inl e \<Rightarrow> Inl e
      | Inr s \<Rightarrow> Inr (snd s))"

text \<open>
  The variant \<^verbatim>\<open>MH(initial, target_dist, proposal_std, n)\<close> draws the candidate with
  \<^verbatim>\<open>norm.rvs(loc=x, scale=proposal_std)\<close>. That call belongs to scipy: \<open>norm_rvs k x sd\<close>
  is what it does in pass \<open>k\<close>, a value or an exception.
\<close>

fun MH_std_loop ::
  "(float64 \<Rightarrow> 'e + float64) \<Rightarrow> float64 \<Rightarrow> (nat \<Rightarrow> float64 \<Rightarrow> float64 \<Rightarrow> 'e + float64)
     \<Rightarrow> (nat \<Rightarrow> float64) \<Rightarrow> nat \<Rightarrow> nat \<Rightarrow> float64 \<times> float64 list
     \<Rightarrow> 'e + float64 \<times> float64 list" where
  "MH_std_loop pdf proposal_std norm_rvs urvs 0 k s = Inr s"
| "MH_std_loop pdf proposal_std norm_rvs urvs (Suc m) k s =
     (case norm_rvs k (fst s) proposal_std of
        Inl e \<Rightarrow> Inl e
      | Inr y \<Rightarrow>
          (case MH_body pdf y (urvs k) s of
             Inl e \<Rightarrow> Inl e
           | Inr s' \<Rightarrow> MH_std_loop pdf proposal_std norm_rvs urvs m (Suc k) s'))"

definition MH_std ::
  "float64 \<Rightarrow> (float64 \<Rightarrow> 'e + float64) \<Rightarrow> float64 \<Rightarrow> (nat \<Rightarrow> float64 \<Rightarrow> float64 \<Rightarrow> 'e + float64)
     \<Rightarrow> (nat \<Rightarrow> float64) \<Rightarrow> int \<Rightarrow> 'e + float64 list" where
  "MH_std initial pdf proposal_std norm_rvs urvs n =
     (case MH_std_loop pdf proposal_std norm_rvs urvs (nat n) 0 (initial, []) of
        Inl e \<Rightarrow> Inl e
      | Inr s \<Rightarrow> Inr (snd s))"

text \<open>
  The running sums \<open>x + d1\<close>, \<open>(x + d1) + d2\<close>, ... of a list of offsets, added in this
  order.
\<close>

fun running_sums :: "float64 \<Rightarrow> float64 list \<Rightarrow> float64 list" where
  "running_sums x [] = []"
| "running_sums x (d # ds) = np_add x d # running_sums (np_add x d) ds"

text \<open>
  Densities for the examples: a constant one; a bump that is zero outside \<open>[-1, 1]\<close>
  (as the normal density is, in binary64, beyond about 38.6); one that raises at
  arguments above 2; and one that is 10 at zero and 1 elsewhere.
\<close>

definition const_pdf :: "real \<Rightarrow> float64 \<Rightarrow> string + float64" where
  "const_pdf c v = Inr (Fin c)"

fun bump_pdf :: "float64 \<Rightarrow> string + float64" where
  "bump_pdf (Fin r) = Inr (Fin (if \<bar>r\<bar> \<le> 1 then 1 - \<bar>r\<bar> / 2 else 0))"
| "bump_pdf NZero = Inr (Fin 1)"
| "bump_pdf v = Inr (Fin 0)"

fun raising_pdf :: "float64 \<Rightarrow> string + float64" where
  "raising_pdf (Fin r) = (if 2 < r then Inl ''ValueError'' else Inr (Fin 1))"
| "raising_pdf v = Inr (Fin 1)"


text \<open>
  A stand-in for \<^verbatim>\<open>norm.rvs(loc=x, scale=proposal_std)\<close> in the examples: it raises for
  a negative scale and returns \<open>loc + scale\<close> otherwise.
\<close>

definition shift_rvs :: "nat \<Rightarrow> float64 \<Rightarrow> float64 \<Rightarrow> string + float64" where
  "shift_rvs k loc scale = (if np_lt scale (Fin 0) then Inl ''ValueError'' else Inr (np_add loc scale))"

section \<open>Rounding\<close>

lemma rne_of_int: "rne (of_int n) = n"
  by (simp add: rne_def)

lemma rne_near: "\<bar>of_int (rne x) - x\<bar> \<le> 1 / 2"
  by (simp add: rne_def Let_def)

lemma rne_nonneg: "0 \<le> x \<Longrightarrow> 0 \<le> rne x"
  by (auto simp: rne_def Let_def)

lemma exponent_le:
  assumes "0 < r"
  shows "2 powi (exponent r) \<le> r"
proof (cases "1 \<le> r")
  case True
  then have n: "0 < \<lfloor>r\<rfloor>" by simp
  from bitlen_bounds [OF n] have b: "2 ^ nat (bitlen \<lfloor>r\<rfloor> - 1) \<le> \<lfloor>r\<rfloor>" by simp
  from n have "1 \<le> bitlen \<lfloor>r\<rfloor>" by (simp add: bitlen_alt_def)
  then have "(2::real) powi (bitlen \<lfloor>r\<rfloor> - 1) = 2 ^ nat (bitlen \<lfloor>r\<rfloor> - 1)"
    by (simp add: power_int_def)
  also from b have "\<dots> \<le> of_int \<lfloor>r\<rfloor>"
    by (metis of_int_le_iff of_int_numeral of_int_power)
  also have "\<dots> \<le> r" by simp
  finally show ?thesis using True by (simp add: exponent_def)
next
  case False
  let ?n = "\<lceil>1 / r\<rceil>"
  from False assms have "1 < 1 / r" by simp
  then have n: "0 < ?n - 1" by (simp add: less_ceiling_iff)
  from bitlen_bounds [OF n] have "?n - 1 < 2 ^ nat (bitlen (?n - 1))" by simp
  then have "?n \<le> 2 ^ nat (bitlen (?n - 1))" by simp
  then have "of_int ?n \<le> (2::real) ^ nat (bitlen (?n - 1))"
    by (metis of_int_le_iff of_int_numeral of_int_power)
  moreover have "1 / r \<le> of_int ?n" by simp
  ultimately have "1 / r \<le> 2 ^ nat (bitlen (?n - 1))" by linarith
  with assms have "1 / 2 ^ nat (bitlen (?n - 1)) \<le> r"
    by (simp add: field_simps)
  moreover have "(2::real) powi (- bitlen (?n - 1)) = 1 / 2 ^ nat (bitlen (?n - 1))"
    using bitlen_nonneg [of "?n - 1"] by (simp add: power_int_def power_one_over)
  ultimately show ?thesis using False by (simp add: exponent_def)
qed

lemma exponent_less:
  assumes "0 < r"
  shows "r < 2 powi (exponent r + 1)"
proof (cases "1 \<le> r")
  case True
  then have n: "0 < \<lfloor>r\<rfloor>" by simp
  from bitlen_bounds [OF n] have "\<lfloor>r\<rfloor> + 1 \<le> 2 ^ nat (bitlen \<lfloor>r\<rfloor>)" by simp
  then have "of_int (\<lfloor>r\<rfloor> + 1) \<le> (2::real) ^ nat (bitlen \<lfloor>r\<rfloor>)"
    by (metis of_int_le_iff of_int_numeral of_int_power)
  moreover have "r < of_int (\<lfloor>r\<rfloor> + 1)" by linarith
  ultimately have "r < 2 ^ nat (bitlen \<lfloor>r\<rfloor>)" by linarith
  moreover have "(2::real) powi (bitlen \<lfloor>r\<rfloor>) = 2 ^ nat (bitlen \<lfloor>r\<rfloor>)"
    using bitlen_nonneg [of "\<lfloor>r\<rfloor>"] by (simp add: power_int_def)
  ultimately show ?thesis using True by (simp add: exponent_def)
next
  case False
  let ?n = "\<lceil>1 / r\<rceil>"
  let ?B = "bitlen (?n - 1)"
  from False assms have "1 < 1 / r" by simp
  then have n: "0 < ?n - 1" by (simp add: less_ceiling_iff)
  then have B: "1 \<le> ?B" by (simp add: bitlen_alt_def)
  from bitlen_bounds [OF n] have "2 ^ nat (?B - 1) \<le> ?n - 1" by simp
  then have "(2::real) ^ nat (?B - 1) \<le> of_int (?n - 1)"
    by (metis of_int_le_iff of_int_numeral of_int_power)
  moreover have "of_int (?n - 1) < 1 / r" by linarith
  ultimately have "2 ^ nat (?B - 1) < 1 / r" by linarith
  with assms have "r < 1 / 2 ^ nat (?B - 1)"
    by (simp add: field_simps)
  moreover have "(2::real) powi (1 - ?B) = 1 / 2 ^ nat (?B - 1)"
    using B by (simp add: power_int_def power_one_over)
  ultimately show ?thesis using False by (simp add: exponent_def)
qed

text \<open>A binary64 number is its own rounding.\<close>

lemma round64_exact:
  assumes r: "r = of_int k * 2 powi e" and k: "0 < k" "k < 2 ^ 53" and e: "- 1074 \<le> e" "e \<le> 971"
  shows "round64 neg r = Fin (if neg then - r else r)"
proof -
  define s where "s = max (exponent r) (- 1022) - 52"
  have pos: "0 < r" using r k by simp
  have "r < 2 ^ 53 * 2 powi e"
    unfolding r using k by simp
  also have "\<dots> = 2 powi (53 + e)"
    by (simp add: power_int_add)
  finally have "r < 2 powi (53 + e)" .
  then have "2 powi (exponent r) < (2::real) powi (53 + e)"
    using exponent_le [OF pos] by simp
  then have "exponent r < 53 + e"
    by (smt (verit) power_int_increasing)
  with e have "s \<le> e" by (simp add: s_def)
  then obtain d where d: "e = s + int d"
    by (metis zle_iff_zadd)
  have "r / 2 powi s = of_int k * (2 powi e / 2 powi s)"
    by (simp add: r)
  also have "2 powi e / 2 powi s = (2::real) powi (e - s)"
    by (simp add: power_int_diff)
  also have "of_int k * 2 powi (e - s) = real_of_int (k * 2 ^ d)" using d by simp
  finally have "rne (r / 2 powi s) = k * 2 ^ d" by (simp only: rne_of_int)
  then have "of_int (rne (r / 2 powi s)) * 2 powi s = of_int k * ((2::real) ^ d * 2 powi s)"
    by simp
  also have "(2::real) ^ d * 2 powi s = 2 powi e"
    by (simp add: d power_int_add)
  finally have v: "of_int (rne (r / 2 powi s)) * 2 powi s = r"
    by (simp add: r)
  have "(2::real) powi (53 + e) \<le> 2 powi 1024"
    by (rule power_int_increasing) (use e in simp_all)
  with \<open>r < 2 powi (53 + e)\<close> have small: "\<not> 2 ^ 1024 \<le> r" by simp
  have "round64 neg r =
          (let v = of_int (rne (r / 2 powi s)) * 2 powi s
           in if 2 ^ 1024 \<le> v then (if neg then NInf else PInf)
              else if v = 0 then (if neg then NZero else Fin 0)
              else Fin (if neg then - v else v))"
    by (simp only: round64_def s_def Let_def)
  also have "\<dots> = Fin (if neg then - r else r)"
    using pos small by (simp only: v Let_def) simp
  finally show ?thesis .
qed

lemma round64_zero: "round64 neg 0 = (if neg then NZero else Fin 0)"
  by (simp add: round64_def Let_def rne_def)

lemma round64_nonneg:
  assumes "0 \<le> m"
  shows "round64 False m = PInf \<or> (\<exists>v\<ge>0. round64 False m = Fin v)"
proof -
  let ?u = "(2::real) powi (max (exponent m) (- 1022) - 52)"
  have "0 < ?u" by simp
  with assms have "0 \<le> m / ?u" by simp
  then have "0 \<le> rne (m / ?u)" by (rule rne_nonneg)
  then have "0 \<le> of_int (rne (m / ?u)) * ?u" by simp
  then show ?thesis by (auto simp: round64_def Let_def simp del: power_int_numeral)
qed

lemma fin_add_exact:
  assumes "a + b = of_int k * 2 powi e" and "0 < k" and "k < 2 ^ 53" and "- 1074 \<le> e" and "e \<le> 971"
  shows "fin_add a b = Fin (a + b)"
proof -
  from assms(1,2) have p: "0 < a + b" by simp
  from round64_exact [OF assms, of False] p show ?thesis by (simp add: fin_add_def)
qed

lemma fin_div_exact:
  assumes "0 < a" and "0 < b"
    and "a / b = of_int k * 2 powi e" and "0 < k" and "k < 2 ^ 53" and "- 1074 \<le> e" and "e \<le> 971"
  shows "fin_div a b = Fin (a / b)"
  using round64_exact [OF assms(3-7), of False] assms(1,2) by (simp add: fin_div_def)

lemma fin_div_0: "0 < b \<Longrightarrow> fin_div 0 b = Fin 0"
  by (simp add: fin_div_def round64_zero)

lemma fin_div_same: "c \<noteq> 0 \<Longrightarrow> fin_div c c = Fin 1"
  using round64_exact [of 1 1 0 False] by (simp add: fin_div_def)

lemma fin_div_nonneg:
  "0 \<le> a \<Longrightarrow> 0 < b \<Longrightarrow> fin_div a b = PInf \<or> (\<exists>v\<ge>0. fin_div a b = Fin v)"
  using round64_nonneg [of "\<bar>a\<bar> / \<bar>b\<bar>"] by (simp add: fin_div_def)





text \<open>Sums and quotients of the examples; all of them are exact.\<close>

lemma example_sums:
  "fin_add 0 1 = Fin 1" "fin_add 1 1 = Fin 2" "fin_add 2 1 = Fin 3" "fin_add 2 2 = Fin 4"
  "fin_add 0 (3/2) = Fin (3/2)" "fin_add (3/2) (3/2) = Fin 3" "fin_add 3 (- 2) = Fin 1"
  using fin_add_exact [of 0 1 1 0] fin_add_exact [of 1 1 2 0] fin_add_exact [of 2 1 3 0]
    fin_add_exact [of 2 2 4 0] fin_add_exact [of 0 "3/2" 3 "- 1"]
    fin_add_exact [of "3/2" "3/2" 3 0] fin_add_exact [of 3 "- 2" 1 0]
  by simp_all

lemma example_quotients:
  "fin_div (1/2) 1 = Fin (1/2)" "fin_div 0 (1/2) = Fin 0" "fin_div 1 1 = Fin 1"
  "fin_div 3 3 = Fin 1" "fin_div 0 1 = Fin 0"
  using fin_div_exact [of "1/2" 1 1 "- 1"] fin_div_0 [of "1/2"] fin_div_same [of 1]
    fin_div_same [of 3] fin_div_0 [of 1]
  by simp_all

lemmas example_eval =
  MH_def MH_std_def MH_body_def acceptance_def py_min_def shift_rvs_def example_sums example_quotients

section \<open>Properties of the loop\<close>

subsection \<open>Length of the result\<close>

lemma MH_body_cases:
  "(\<exists>e. MH_body pdf y u (x, samples) = Inl e) \<or>
   MH_body pdf y u (x, samples) = Inr (y, samples @ [y]) \<or>
   MH_body pdf y u (x, samples) = Inr (x, samples @ [x])"
  by (simp add: MH_body_def Let_def split: sum.splits)

lemma MH_body_length:
  "MH_body pdf y u s = Inr s' \<Longrightarrow> length (snd s') = Suc (length (snd s))"
  by (cases s) (auto simp: MH_body_def Let_def split: sum.splits if_splits)

lemma MH_loop_length:
  "MH_loop pdf rvs urvs m k s = Inr s' \<Longrightarrow> length (snd s') = length (snd s) + m"
proof (induction m arbitrary: k s)
  case 0
  then show ?case by simp
next
  case (Suc m)
  from Suc.prems obtain s1 where
    b: "MH_body pdf (np_add (fst s) (rvs k)) (urvs k) s = Inr s1" and
    l: "MH_loop pdf rvs urvs m (Suc k) s1 = Inr s'"
    by (auto split: sum.splits)
  from Suc.IH [OF l] MH_body_length [OF b] show ?case by simp
qed

lemma MH_body_total:
  "\<forall>v. \<exists>p. pdf v = Inr p \<Longrightarrow> \<exists>s'. MH_body pdf y u s = Inr s'"
proof -
  assume t: "\<forall>v. \<exists>p. pdf v = Inr p"
  obtain x samples where s: "s = (x, samples)" by (cases s)
  from t obtain py where py: "pdf y = Inr py" by blast
  from t obtain px where px: "pdf x = Inr px" by blast
  show ?thesis by (simp add: MH_body_def s py px Let_def)
qed

lemma MH_loop_total:
  "\<forall>v. \<exists>p. pdf v = Inr p \<Longrightarrow> \<exists>s'. MH_loop pdf rvs urvs m k s = Inr s'"
proof (induction m arbitrary: k s)
  case 0
  then show ?case by simp
next
  case (Suc m)
  from MH_body_total [OF Suc.prems] obtain s1 where
    "MH_body pdf (np_add (fst s) (rvs k)) (urvs k) s = Inr s1" by blast
  with Suc.IH [OF Suc.prems, of "Suc k" s1] show ?case by simp
qed

text \<open>
  C2: for every \<open>n \<ge> 0\<close>, every initial state, every density and all draws, a sequence
  that \<open>MH\<close> returns has exactly \<open>n\<close> elements, and is empty for \<open>n = 0\<close>; and \<open>MH\<close>
  does return a sequence when the density never raises.
\<close>

theorem MH_length:
  assumes "0 \<le> n"
  shows "(\<forall>xs. MH initial pdf rvs urvs n = Inr xs \<longrightarrow> int (length xs) = n \<and> (n = 0 \<longrightarrow> xs = [])) \<and>
         ((\<forall>v. \<exists>p. pdf v = Inr p) \<longrightarrow> (\<exists>xs. MH initial pdf rvs urvs n = Inr xs))"
proof (intro conjI allI impI)
  fix xs assume "MH initial pdf rvs urvs n = Inr xs"
  then obtain xn where l: "MH_loop pdf rvs urvs (nat n) 0 (initial, []) = Inr (xn, xs)"
    by (auto simp: MH_def split: sum.splits)
  from MH_loop_length [OF l] assms show "int (length xs) = n" by simp
  then show "xs = []" if "n = 0" using that by simp
next
  assume "\<forall>v. \<exists>p. pdf v = Inr p"
  from MH_loop_total [OF this] obtain s' where
    "MH_loop pdf rvs urvs (nat n) 0 (initial, []) = Inr s'" by blast
  then show "\<exists>xs. MH initial pdf rvs urvs n = Inr xs" by (simp add: MH_def)
qed

theorem MH_length_witness:
  "(0::int) \<le> 2 \<and> (\<forall>v. \<exists>p. bump_pdf v = Inr p) \<and>
   MH (Fin 0) bump_pdf (\<lambda>k. Fin 1) (\<lambda>k. Fin (1/4)) 2 = Inr [Fin 1, Fin 1] \<and>
   int (length [Fin 1, Fin (1::real)]) = 2 \<and>
   (\<exists>xs. MH (Fin 0) bump_pdf (\<lambda>k. Fin 1) (\<lambda>k. Fin (1/4)) 2 = Inr xs)"
proof -
  have t: "\<forall>v. \<exists>p. bump_pdf v = Inr p"
  proof
    fix v show "\<exists>p. bump_pdf v = Inr p" by (cases v) simp_all
  qed
  have n: "(0::int) \<le> 2" by simp
  have r: "MH (Fin 0) bump_pdf (\<lambda>k. Fin 1) (\<lambda>k. Fin (1/4)) 2 = Inr [Fin 1, Fin 1]"
    by (simp add: example_eval numeral_2_eq_2)
  from MH_length [OF n, of "Fin 0" bump_pdf "\<lambda>k. Fin 1" "\<lambda>k. Fin (1/4)"]
  have "int (length [Fin 1, Fin (1::real)]) = 2"
    and "\<exists>xs. MH (Fin 0) bump_pdf (\<lambda>k. Fin 1) (\<lambda>k. Fin (1/4)) 2 = Inr xs"
    using r t by blast+
  with n t r show ?thesis by blast
qed

subsection \<open>The elements of the result, pass by pass\<close>

lemma MH_loop_add:
  "MH_loop pdf rvs urvs (j + m) k s =
     (case MH_loop pdf rvs urvs j k s of
        Inl e \<Rightarrow> Inl e
      | Inr s' \<Rightarrow> MH_loop pdf rvs urvs m (k + j) s')"
  by (induction j arbitrary: k s) (simp_all split: sum.splits)

lemma MH_body_shape:
  "MH_body pdf y u s = Inr s' \<Longrightarrow> snd s' = snd s @ [fst s']"
  by (cases s) (auto simp: MH_body_def Let_def split: sum.splits if_splits)

lemma MH_loop_shape:
  "MH_loop pdf rvs urvs m k s = Inr s' \<Longrightarrow>
     \<exists>ys. length ys = m \<and> snd s' = snd s @ ys \<and> fst s' = last (fst s # ys)"
proof (induction m arbitrary: k s)
  case 0
  then show ?case by simp
next
  case (Suc m)
  from Suc.prems obtain s1 where
    b: "MH_body pdf (np_add (fst s) (rvs k)) (urvs k) s = Inr s1" and
    l: "MH_loop pdf rvs urvs m (Suc k) s1 = Inr s'"
    by (auto split: sum.splits)
  from Suc.IH [OF l] obtain ys where
    ys: "length ys = m" "snd s' = snd s1 @ ys" "fst s' = last (fst s1 # ys)" by blast
  from MH_body_shape [OF b] have s1: "snd s1 = snd s @ [fst s1]" .
  have "length (fst s1 # ys) = Suc m" using ys(1) by simp
  moreover have "snd s' = snd s @ (fst s1 # ys)" using ys(2) s1 by simp
  moreover have "fst s' = last (fst s # fst s1 # ys)" using ys(3) by simp
  ultimately show ?case by blast
qed

lemma nth_Cons_length_last: "(x # ys) ! length ys = last (x # ys)"
  by (induction ys arbitrary: x) simp_all

lemma nth_Cons_prefix_last:
  "length ys = k \<Longrightarrow> (x # ys @ zs) ! k = last (x # ys)"
proof -
  assume k: "length ys = k"
  have "(x # ys @ zs) ! k = ((x # ys) @ zs) ! k" by simp
  also have "\<dots> = (x # ys) ! k" using k by (simp only: nth_append) simp
  also have "\<dots> = last (x # ys)" unfolding k [symmetric] by (rule nth_Cons_length_last)
  finally show ?thesis .
qed

text \<open>
  Every element of the returned sequence comes from one pass of the body, run on the
  element before it (on \<open>initial\<close> for the first) and on the elements returned so far.
\<close>

lemma MH_nth:
  assumes run: "MH initial pdf rvs urvs n = Inr xs" and k: "k < length xs"
  shows "MH_body pdf (np_add ((initial # xs) ! k) (rvs k)) (urvs k)
           ((initial # xs) ! k, take k xs) = Inr (xs ! k, take (Suc k) xs)"
proof -
  from run obtain xn where
    l: "MH_loop pdf rvs urvs (nat n) 0 (initial, []) = Inr (xn, xs)"
    by (auto simp: MH_def split: sum.splits)
  from MH_loop_length [OF l] have len: "length xs = nat n" by simp
  from k len have "k < nat n" by simp
  then obtain m where n: "nat n = k + Suc m"
    by (auto dest: less_imp_Suc_add)
  from l have "MH_loop pdf rvs urvs (k + Suc m) 0 (initial, []) = Inr (xn, xs)"
    by (simp only: n)
  then have "(case MH_loop pdf rvs urvs k 0 (initial, []) of
               Inl e \<Rightarrow> Inl e
             | Inr s' \<Rightarrow> MH_loop pdf rvs urvs (Suc m) (0 + k) s') = Inr (xn, xs)"
    by (simp only: MH_loop_add)
  then obtain sk where
    lk: "MH_loop pdf rvs urvs k 0 (initial, []) = Inr sk" and
    lr: "MH_loop pdf rvs urvs (Suc m) k sk = Inr (xn, xs)"
    by (auto split: sum.splits)
  from lr obtain s1 where
    b: "MH_body pdf (np_add (fst sk) (rvs k)) (urvs k) sk = Inr s1" and
    lm: "MH_loop pdf rvs urvs m (Suc k) s1 = Inr (xn, xs)"
    by (auto split: sum.splits)
  from MH_loop_shape [OF lk] obtain ys where
    ys: "length ys = k" "snd sk = ys" "fst sk = last (initial # ys)" by auto
  from MH_body_shape [OF b] ys(2) have s1: "snd s1 = ys @ [fst s1]" by simp
  from MH_loop_shape [OF lm] s1 obtain zs where
    xs: "xs = ys @ fst s1 # zs" by auto
  have t: "take k xs = ys" using xs ys(1) by simp
  have e: "xs ! k = fst s1" using xs ys(1) by (simp add: nth_append)
  have t': "take (Suc k) xs = ys @ [fst s1]" using xs ys(1) by simp
  have p: "(initial # xs) ! k = last (initial # ys)"
    unfolding xs using ys(1) by (rule nth_Cons_prefix_last)
  have sk: "sk = ((initial # xs) ! k, take k xs)"
    using ys(2,3) t p by (cases sk) simp
  have s1': "s1 = (xs ! k, take (Suc k) xs)"
    using s1 e t' by (cases s1) simp
  from b show ?thesis unfolding sk s1' by simp
qed




subsection \<open>The acceptance test\<close>


lemma MH_body_Inr:
  "pdf y = Inr py \<Longrightarrow> pdf x = Inr px \<Longrightarrow>
   MH_body pdf y u (x, samples) =
     Inr (if np_le u (acceptance py px) then (y, samples @ [y]) else (x, samples @ [x]))"
  by (simp add: MH_body_def)





text \<open>
  C3, as the code has it: there is no special case, the two densities are divided. With a
  zero density at the current state and a non-negative one \<open>py\<close> at the candidate, the
  quotient is infinite for \<open>py > 0\<close>, the ratio is 1 and the move is made for every draw
  \<open>u \<le> 1\<close>; for \<open>py = 0\<close> the quotient and the ratio are not-a-number and the move is
  refused for every draw.
\<close>

theorem MH_zero_density:
  assumes "pdf x = Inr (Fin 0)" and "pdf y = Inr (Fin py)" and "0 \<le> py"
  shows "acceptance (Fin py) (Fin 0) = (if 0 < py then Fin 1 else NaN) \<and>
         MH_body pdf y u (x, samples) =
           Inr (if 0 < py \<and> np_le u (Fin 1) then (y, samples @ [y]) else (x, samples @ [x]))"
proof -
  have a: "acceptance (Fin py) (Fin 0) = (if 0 < py then Fin 1 else NaN)"
    using assms(3) by (simp add: acceptance_def py_min_def)
  have "np_le u (acceptance (Fin py) (Fin 0)) = (0 < py \<and> np_le u (Fin 1))"
    unfolding a by (cases u) simp_all
  with MH_body_Inr [OF assms(2,1)] a show ?thesis by simp
qed

theorem MH_zero_density_witness:
  "bump_pdf (Fin 2) = Inr (Fin 0) \<and> bump_pdf (Fin 1) = Inr (Fin (1/2)) \<and> (0::real) \<le> 1/2 \<and>
   acceptance (Fin (1/2)) (Fin 0) = Fin 1 \<and>
   MH_body bump_pdf (Fin 1) (Fin 1) (Fin 2, []) = Inr (Fin 1, [Fin 1])"
proof -
  have x: "bump_pdf (Fin 2) = Inr (Fin 0)" by simp
  have y: "bump_pdf (Fin 1) = Inr (Fin (1/2))" by simp
  have p: "(0::real) \<le> 1/2" by simp
  from MH_zero_density [OF x y p, of "Fin 1" "[]"] x y show ?thesis by simp
qed

text \<open>
  A density of \<^verbatim>\<open>-0.0\<close> at the current state is another case: the quotient is then
  the negative infinity, which no finite draw is below.
\<close>

lemma acceptance_negative_zero:
  "0 < py \<Longrightarrow> acceptance (Fin py) NZero = NInf \<and> \<not> np_le (Fin u) (acceptance (Fin py) NZero)"
  by (simp add: acceptance_def py_min_def)

text \<open>
  Both densities zero: the ratio is not 0, and a draw of 0, which a ratio of 0 would let
  through, is refused.
\<close>

theorem MH_zero_density_counterexample:
  "bump_pdf (Fin 2) = Inr (Fin 0) \<and> bump_pdf (Fin 3) = Inr (Fin 0) \<and>
   acceptance (Fin 0) (Fin 0) \<noteq> Fin 0 \<and>
   MH_body bump_pdf (Fin 3) (Fin 0) (Fin 2, []) = Inr (Fin 2, [Fin 2])"
  by (simp add: MH_body_def acceptance_def py_min_def)

subsection \<open>Arguments outside the contract\<close>

text \<open>
  C4, as the code has it: \<open>MH\<close> checks nothing. For \<open>n \<le> 0\<close>, so for every negative
  \<open>n\<close>, both variants return the empty sequence and no error, whatever the proposal
  and its scale are; no pass is made, since neither the density nor a draw is used.
\<close>

theorem MH_no_validation:
  assumes "n \<le> 0"
  shows "MH initial pdf rvs urvs n = Inr [] \<and>
         MH_std initial pdf proposal_std norm_rvs urvs n = Inr []"
  using assms by (simp add: MH_def MH_std_def)

theorem MH_no_validation_witness:
  "(-1::int) \<le> 0 \<and> MH (Fin 1) raising_pdf (\<lambda>k. Fin 5) (\<lambda>k. Fin 0) (-1) = Inr [] \<and>
   MH_std (Fin 1) raising_pdf (Fin (-2)) (\<lambda>k x sd. Inl ''ValueError'') (\<lambda>k. Fin 0) (-1) = Inr []"
proof -
  have n: "(-1::int) \<le> 0" by simp
  from MH_no_validation [OF n] n show ?thesis by simp
qed

text \<open>
  A negative \<open>n\<close>, and a scale that is negative or zero, with a sequence as the result.
\<close>

theorem MH_no_validation_counterexample:
  "MH (Fin 1) bump_pdf (\<lambda>k. Fin 1) (\<lambda>k. Fin 0) (-1) = Inr [] \<and>
   MH_std (Fin 1) bump_pdf (Fin (-2)) (\<lambda>k x sd. Inr (np_add x sd)) (\<lambda>k. Fin 0) (-1) = Inr [] \<and>
   MH_std (Fin 1) bump_pdf (Fin 0) (\<lambda>k x sd. Inr (np_add x sd)) (\<lambda>k. Fin 0) 0 = Inr []"
  by (simp add: MH_def MH_std_def)

subsection \<open>A uniform draw of zero\<close>

text \<open>
  C10, as the code has it: with finite non-negative densities that are not both zero, a
  draw \<open>u = 0\<close> makes the move, also into a candidate of density zero from a state of
  positive density (the ratio is 0 and \<open>0 \<le> 0\<close>).
\<close>

theorem MH_zero_draw_accepts:
  assumes "pdf x = Inr (Fin px)" and "pdf y = Inr (Fin py)" and "0 \<le> px" and "0 \<le> py"
    and "0 < px \<or> 0 < py"
  shows "MH_body pdf y (Fin 0) (x, samples) = Inr (y, samples @ [y])"
proof -
  have "np_le (Fin 0) (acceptance (Fin py) (Fin px))"
  proof (cases "px = 0")
    case True
    with assms(5) show ?thesis by (simp add: acceptance_def py_min_def)
  next
    case False
    with assms(3) have "0 < px" by simp
    from fin_div_nonneg [OF assms(4) this] False show ?thesis
      by (auto simp: acceptance_def py_min_def)
  qed
  with MH_body_Inr [OF assms(2,1)] show ?thesis by simp
qed

theorem MH_zero_draw_accepts_witness:
  "bump_pdf (Fin 1) = Inr (Fin (1/2)) \<and> bump_pdf (Fin 2) = Inr (Fin 0) \<and>
   (0::real) \<le> 1/2 \<and> (0::real) \<le> 0 \<and> ((0::real) < 1/2 \<or> (0::real) < 0) \<and>
   acceptance (Fin 0) (Fin (1/2)) = Fin 0 \<and>
   MH_body bump_pdf (Fin 2) (Fin 0) (Fin 1, []) = Inr (Fin 2, [Fin 2])"
proof -
  have x: "bump_pdf (Fin 1) = Inr (Fin (1/2))" by simp
  have y: "bump_pdf (Fin 2) = Inr (Fin 0)" by simp
  have px: "(0::real) \<le> 1/2" and py: "(0::real) \<le> 0" and d: "(0::real) < 1/2 \<or> (0::real) < 0"
    by simp_all
  have a: "acceptance (Fin 0) (Fin (1/2)) = Fin 0" by (simp add: example_eval)
  from MH_zero_draw_accepts [OF x y px py d, of "[]"] x y a show ?thesis by simp
qed

text \<open>
  From a state of density zero to a candidate of density zero, the draw 0 is refused: the
  run of one pass returns the state 2 and not the candidate 3.
\<close>

theorem MH_zero_draw_accepts_counterexample:
  "MH (Fin 2) bump_pdf (\<lambda>k. Fin 1) (\<lambda>k. Fin 0) 1 = Inr [Fin 2] \<and>
   np_add (Fin 2) (Fin 1) = Fin 3 \<and> Fin 3 \<noteq> Fin 2"
  by (simp add: example_eval)

subsection \<open>Exceptions of the density\<close>

lemma MH_body_error:
  "MH_body pdf y u s = Inl e \<Longrightarrow> \<exists>v. pdf v = Inl e"
  by (cases s) (auto simp: MH_body_def Let_def split: sum.splits if_splits)

lemma MH_loop_error:
  "MH_loop pdf rvs urvs m k s = Inl e \<Longrightarrow> \<exists>v. pdf v = Inl e"
proof (induction m arbitrary: k s)
  case 0
  then show ?case by simp
next
  case (Suc m)
  show ?case
  proof (cases "MH_body pdf (np_add (fst s) (rvs k)) (urvs k) s")
    case (Inl e')
    with Suc.prems have "e' = e" by simp
    with Inl show ?thesis by (auto dest: MH_body_error)
  next
    case (Inr s1)
    with Suc.prems have "MH_loop pdf rvs urvs m (Suc k) s1 = Inl e" by simp
    then show ?thesis by (rule Suc.IH)
  qed
qed

lemma MH_loop_raise:
  assumes "MH_loop pdf rvs urvs j k s = Inr s'"
    and "MH_body pdf (np_add (fst s') (rvs (k + j))) (urvs (k + j)) s' = Inl e"
  shows "MH_loop pdf rvs urvs (j + Suc m) k s = Inl e"
proof -
  have "MH_loop pdf rvs urvs (j + Suc m) k s =
          (case MH_loop pdf rvs urvs j k s of
             Inl e \<Rightarrow> Inl e
           | Inr s' \<Rightarrow> MH_loop pdf rvs urvs (Suc m) (k + j) s')"
    by (rule MH_loop_add)
  also have "\<dots> = MH_loop pdf rvs urvs (Suc m) (k + j) s'"
    by (simp only: assms(1) sum.case)
  also have "\<dots> = Inl e"
    by (simp add: assms(2))
  finally show ?thesis .
qed

lemma MH_body_raise:
  "pdf y = Inl e \<or> (\<exists>py. pdf y = Inr py) \<and> pdf x = Inl e \<Longrightarrow>
   MH_body pdf y u (x, samples) = Inl e"
  by (auto simp: MH_body_def)

lemma MH_run_state:
  assumes "MH initial pdf rvs urvs (int j) = Inr xs"
  shows "MH_loop pdf rvs urvs j 0 (initial, []) = Inr (last (initial # xs), xs)"
proof -
  from assms obtain s where l: "MH_loop pdf rvs urvs j 0 (initial, []) = Inr s" and x: "snd s = xs"
    by (auto simp: MH_def split: sum.splits)
  from MH_loop_shape [OF l] x have "fst s = last (initial # xs)" by auto
  with l x show ?thesis by (cases s) simp
qed

text \<open>
  C5: when the first \<open>j\<close> passes of a run of \<open>n > j\<close> passes go through, leaving the
  state \<open>x\<close>, and the density then raises \<open>e\<close>, at the candidate \<open>x + rvs j\<close> or, the
  candidate evaluated, at \<open>x\<close>, then \<open>e\<close> itself is the result of \<open>MH\<close>; and every run
  ends in an exception that the density raised or in a sequence of all \<open>n\<close> elements,
  never in a shorter one.
\<close>

theorem MH_propagates:
  "(\<forall>j xs e. j < nat n \<longrightarrow> MH initial pdf rvs urvs (int j) = Inr xs \<longrightarrow>
      (pdf (np_add (last (initial # xs)) (rvs j)) = Inl e \<or>
       (\<exists>py. pdf (np_add (last (initial # xs)) (rvs j)) = Inr py) \<and>
         pdf (last (initial # xs)) = Inl e) \<longrightarrow>
      MH initial pdf rvs urvs n = Inl e) \<and>
   ((\<exists>e. MH initial pdf rvs urvs n = Inl e \<and> (\<exists>v. pdf v = Inl e)) \<or>
    (\<exists>xs. MH initial pdf rvs urvs n = Inr xs \<and> length xs = nat n))"
proof
  show "\<forall>j xs e. j < nat n \<longrightarrow> MH initial pdf rvs urvs (int j) = Inr xs \<longrightarrow>
      (pdf (np_add (last (initial # xs)) (rvs j)) = Inl e \<or>
       (\<exists>py. pdf (np_add (last (initial # xs)) (rvs j)) = Inr py) \<and>
         pdf (last (initial # xs)) = Inl e) \<longrightarrow>
      MH initial pdf rvs urvs n = Inl e"
  proof (intro allI impI)
    fix j xs e
    assume j: "j < nat n" and r: "MH initial pdf rvs urvs (int j) = Inr xs"
      and p: "pdf (np_add (last (initial # xs)) (rvs j)) = Inl e \<or>
       (\<exists>py. pdf (np_add (last (initial # xs)) (rvs j)) = Inr py) \<and>
         pdf (last (initial # xs)) = Inl e"
    let ?s = "(last (initial # xs), xs)"
    from MH_run_state [OF r] have l: "MH_loop pdf rvs urvs j 0 (initial, []) = Inr ?s" .
    from p have "MH_body pdf (np_add (last (initial # xs)) (rvs j)) (urvs j) ?s = Inl e"
      by (rule MH_body_raise)
    then have b: "MH_body pdf (np_add (fst ?s) (rvs (0 + j))) (urvs (0 + j)) ?s = Inl e" by simp
    from j obtain m where n: "nat n = j + Suc m" by (auto dest: less_imp_Suc_add)
    from MH_loop_raise [OF l b] have "MH_loop pdf rvs urvs (nat n) 0 (initial, []) = Inl e"
      by (simp only: n)
    then show "MH initial pdf rvs urvs n = Inl e" by (simp add: MH_def)
  qed
next
  show "(\<exists>e. MH initial pdf rvs urvs n = Inl e \<and> (\<exists>v. pdf v = Inl e)) \<or>
    (\<exists>xs. MH initial pdf rvs urvs n = Inr xs \<and> length xs = nat n)"
  proof (cases "MH_loop pdf rvs urvs (nat n) 0 (initial, [])")
    case (Inl e)
    from MH_loop_error [OF Inl] Inl show ?thesis by (simp add: MH_def)
  next
    case (Inr s)
    from MH_loop_length [OF Inr] Inr show ?thesis by (simp add: MH_def)
  qed
qed

text \<open>
  The density raises at the candidate of the second pass of three; and it raises at the
  initial state, after the candidate of the first pass went through.
\<close>

theorem MH_propagates_witness:
  "(1::nat) < nat 3 \<and>
   MH (Fin 0) raising_pdf (\<lambda>k. Fin (3/2)) (\<lambda>k. Fin (1/2)) (int 1) = Inr [Fin (3/2)] \<and>
   raising_pdf (np_add (last (Fin 0 # [Fin (3/2)])) (Fin (3/2))) = Inl ''ValueError'' \<and>
   MH (Fin 0) raising_pdf (\<lambda>k. Fin (3/2)) (\<lambda>k. Fin (1/2)) 3 = Inl ''ValueError'' \<and>
   (0::nat) < nat 1 \<and>
   MH (Fin 3) raising_pdf (\<lambda>k. Fin (- 2)) (\<lambda>k. Fin (1/2)) (int 0) = Inr [] \<and>
   raising_pdf (np_add (last (Fin 3 # [])) (Fin (- 2))) = Inr (Fin 1) \<and>
   raising_pdf (last (Fin 3 # [])) = Inl ''ValueError'' \<and>
   MH (Fin 3) raising_pdf (\<lambda>k. Fin (- 2)) (\<lambda>k. Fin (1/2)) 1 = Inl ''ValueError''"
proof -
  have j: "(1::nat) < nat 3" by simp
  have r: "MH (Fin 0) raising_pdf (\<lambda>k. Fin (3/2)) (\<lambda>k. Fin (1/2)) (int 1) = Inr [Fin (3/2)]"
    by (simp add: example_eval)
  have p: "raising_pdf (np_add (last (Fin 0 # [Fin (3/2)])) (Fin (3/2))) = Inl ''ValueError''"
    by (simp add: example_sums)
  from MH_propagates [of 3 "Fin 0" raising_pdf "\<lambda>k. Fin (3/2)" "\<lambda>k. Fin (1/2)"]
  have a: "MH (Fin 0) raising_pdf (\<lambda>k. Fin (3/2)) (\<lambda>k. Fin (1/2)) 3 = Inl ''ValueError''"
    using j r p by blast
  have j': "(0::nat) < nat 1" by simp
  have r': "MH (Fin 3) raising_pdf (\<lambda>k. Fin (- 2)) (\<lambda>k. Fin (1/2)) (int 0) = Inr []"
    by (simp add: example_eval)
  have y': "raising_pdf (np_add (last (Fin 3 # [])) (Fin (- 2))) = Inr (Fin 1)"
    by (simp add: example_sums)
  have x': "raising_pdf (last (Fin 3 # [])) = Inl ''ValueError''" by simp
  from MH_propagates [of 1 "Fin 3" raising_pdf "\<lambda>k. Fin (- 2)" "\<lambda>k. Fin (1/2)"]
  have b: "MH (Fin 3) raising_pdf (\<lambda>k. Fin (- 2)) (\<lambda>k. Fin (1/2)) 1 = Inl ''ValueError''"
    using j' r' y' x' by blast
  show ?thesis
    by (rule conjI [OF j conjI [OF r conjI [OF p conjI [OF a conjI [OF j' conjI [OF r'
          conjI [OF y' conjI [OF x' b]]]]]]]])
qed

subsection \<open>The initial state and refused candidates\<close>

text \<open>
  C6, as the code has it: for \<open>n > 0\<close> the returned sequence has the \<open>n\<close> states after
  the passes and no extra leading entry for \<open>initial\<close>: its first element is the state
  after the first pass, which is the candidate or, when that is refused, the value
  \<open>initial\<close> again.
\<close>

theorem MH_first_element:
  assumes "MH initial pdf rvs urvs n = Inr xs" and "0 < n"
  shows "int (length xs) = n \<and>
         MH_body pdf (np_add initial (rvs 0)) (urvs 0) (initial, []) = Inr (hd xs, [hd xs]) \<and>
         (hd xs = np_add initial (rvs 0) \<or> hd xs = initial)"
proof -
  from assms(1) obtain xn where
    l: "MH_loop pdf rvs urvs (nat n) 0 (initial, []) = Inr (xn, xs)"
    by (auto simp: MH_def split: sum.splits)
  from MH_loop_length [OF l] assms(2) have len: "int (length xs) = n" by simp
  with assms(2) have k: "0 < length xs" by auto
  then have hd: "xs ! 0 = hd xs" by (simp add: hd_conv_nth)
  from k have t: "take (Suc 0) xs = [hd xs]" by (cases xs) simp_all
  from MH_nth [OF assms(1) k]
  have b: "MH_body pdf (np_add initial (rvs 0)) (urvs 0) (initial, []) = Inr (hd xs, [hd xs])"
    by (simp add: hd t)
  from MH_body_cases [of pdf "np_add initial (rvs 0)" "urvs 0" initial "[]"] b
  have "hd xs = np_add initial (rvs 0) \<or> hd xs = initial" by auto
  with len b show ?thesis by simp
qed

theorem MH_first_element_witness:
  "MH (Fin 0) bump_pdf (\<lambda>k. Fin 1) (\<lambda>k. Fin 1) 2 = Inr [Fin 0, Fin 0] \<and> (0::int) < 2 \<and>
   int (length [Fin 0, Fin (0::real)]) = 2 \<and>
   MH_body bump_pdf (np_add (Fin 0) (Fin 1)) (Fin 1) (Fin 0, []) = Inr (Fin 0, [Fin 0])"
proof -
  have r: "MH (Fin 0) bump_pdf (\<lambda>k. Fin 1) (\<lambda>k. Fin 1) 2 = Inr [Fin 0, Fin 0]"
    by (simp add: example_eval numeral_2_eq_2)
  have n: "(0::int) < 2" by simp
  from MH_first_element [OF r n] r show ?thesis by simp
qed

text \<open>
  A first candidate that is refused: the one element returned is the initial state.
\<close>

theorem MH_excludes_initial_counterexample:
  "MH (Fin 0) bump_pdf (\<lambda>k. Fin 1) (\<lambda>k. Fin 1) 1 = Inr [Fin 0] \<and> (0::int) < 1 \<and>
   Fin 0 \<in> set [Fin 0]"
  by (simp add: example_eval)

text \<open>
  C8: when pass \<open>k\<close> of a run refuses its candidate (the draw is not \<open>\<le>\<close> the ratio),
  the element it appends is the state before the pass itself: the element before it in
  the returned sequence, or \<open>initial\<close> in the first pass.
\<close>

theorem MH_reject_keeps_state:
  assumes "MH initial pdf rvs urvs n = Inr xs" and "k < length xs"
    and "pdf ((initial # xs) ! k) = Inr px"
    and "pdf (np_add ((initial # xs) ! k) (rvs k)) = Inr py"
    and "\<not> np_le (urvs k) (acceptance py px)"
  shows "xs ! k = (initial # xs) ! k \<and>
         MH_body pdf (np_add ((initial # xs) ! k) (rvs k)) (urvs k) ((initial # xs) ! k, take k xs)
           = Inr ((initial # xs) ! k, take k xs @ [(initial # xs) ! k])"
proof -
  let ?x = "(initial # xs) ! k" and ?y = "np_add ((initial # xs) ! k) (rvs k)"
  from MH_body_Inr [OF assms(4,3), of "urvs k" "take k xs"] assms(5)
  have b: "MH_body pdf ?y (urvs k) (?x, take k xs) = Inr (?x, take k xs @ [?x])" by simp
  with MH_nth [OF assms(1,2)] have "xs ! k = ?x" by simp
  with b show ?thesis by simp
qed


theorem MH_reject_keeps_state_witness:
  "MH (Fin 0) bump_pdf (\<lambda>k. Fin 1) (\<lambda>k. Fin (if k = 1 then 1 else 0)) 3
     = Inr [Fin 1, Fin 1, Fin 2] \<and>
   (1::nat) < length [Fin 1, Fin 1, Fin 2] \<and>
   bump_pdf (Fin 1) = Inr (Fin (1/2)) \<and> bump_pdf (Fin 2) = Inr (Fin 0) \<and>
   acceptance (Fin 0) (Fin (1/2)) = Fin 0 \<and>
   \<not> np_le (Fin 1) (acceptance (Fin 0) (Fin (1/2))) \<and>
   [Fin 1, Fin 1, Fin 2] ! 1 = (Fin 0 # [Fin 1, Fin 1, Fin 2]) ! 1"
proof -
  let ?u = "\<lambda>k::nat. Fin (if k = 1 then 1 else 0)"
  have r: "MH (Fin 0) bump_pdf (\<lambda>k. Fin 1) ?u 3 = Inr [Fin 1, Fin 1, Fin 2]"
    by (simp add: example_eval numeral_3_eq_3)
  have k: "(1::nat) < length [Fin 1, Fin 1, Fin 2]" by simp
  have px: "bump_pdf ((Fin 0 # [Fin 1, Fin 1, Fin 2]) ! 1) = Inr (Fin (1/2))" by simp
  have py: "bump_pdf (np_add ((Fin 0 # [Fin 1, Fin 1, Fin 2]) ! 1) (Fin 1)) = Inr (Fin 0)"
    by (simp add: example_sums)
  have a0: "acceptance (Fin 0) (Fin (1/2)) = Fin 0" by (simp add: example_eval)
  have a: "\<not> np_le (?u 1) (acceptance (Fin 0) (Fin (1/2)))" by (simp add: a0)
  from MH_reject_keeps_state [OF r k px py a] r a a0 show ?thesis by simp
qed

subsection \<open>A constant density\<close>

lemma acceptance_same: "c \<noteq> 0 \<Longrightarrow> acceptance (Fin c) (Fin c) = Fin 1"
  by (simp add: acceptance_def py_min_def fin_div_same)

lemma MH_loop_constant:
  assumes pdf: "\<forall>v. pdf v = Inr (Fin c)" and c: "0 < c"
  shows "\<forall>i. k \<le> i \<and> i < k + m \<longrightarrow> np_le (urvs i) (Fin 1) \<Longrightarrow>
         \<exists>x'. MH_loop pdf rvs urvs m k (x, samples) =
                 Inr (x', samples @ running_sums x (map rvs [k..<k + m]))"
proof (induction m arbitrary: k x samples)
  case 0
  then show ?case by simp
next
  case (Suc m)
  let ?y = "np_add x (rvs k)"
  from Suc.prems have u: "np_le (urvs k) (Fin 1)" by simp
  from pdf have py: "pdf ?y = Inr (Fin c)" and px: "pdf x = Inr (Fin c)" by simp_all
  from c have a: "acceptance (Fin c) (Fin c) = Fin 1" by (simp add: acceptance_same)
  from MH_body_Inr [OF py px, of "urvs k" samples] u a
  have b: "MH_body pdf ?y (urvs k) (x, samples) = Inr (?y, samples @ [?y])" by simp
  from Suc.prems have "\<forall>i. Suc k \<le> i \<and> i < Suc k + m \<longrightarrow> np_le (urvs i) (Fin 1)" by simp
  from Suc.IH [OF this, of ?y "samples @ [?y]"] obtain x' where
    l: "MH_loop pdf rvs urvs m (Suc k) (?y, samples @ [?y]) =
          Inr (x', (samples @ [?y]) @ running_sums ?y (map rvs [Suc k..<Suc k + m]))" by blast
  have "[k..<k + Suc m] = k # [Suc k..<Suc k + m]" by (simp add: upt_rec)
  then have "running_sums x (map rvs [k..<k + Suc m]) =
               ?y # running_sums ?y (map rvs [Suc k..<Suc k + m])" by simp
  with l b show ?case by simp
qed

text \<open>
  C7: with a density that is the same positive constant everywhere and uniform draws in
  \<open>[0, 1]\<close>, the ratio is 1 in every pass, every candidate is taken, and \<open>MH\<close> returns the
  running sums \<open>initial + rvs 0\<close>, \<open>initial + rvs 0 + rvs 1\<close>, ... of the \<open>n\<close> offsets.
\<close>

theorem MH_constant_density:
  assumes "\<forall>v. pdf v = Inr (Fin c)" and "0 < c"
    and "\<forall>k<nat n. \<exists>r. urvs k = Fin r \<and> 0 \<le> r \<and> r \<le> 1"
  shows "acceptance (Fin c) (Fin c) = Fin 1 \<and>
         MH initial pdf rvs urvs n = Inr (running_sums initial (map rvs [0..<nat n]))"
proof -
  have "\<forall>i. 0 \<le> i \<and> i < 0 + nat n \<longrightarrow> np_le (urvs i) (Fin 1)"
  proof (intro allI impI)
    fix i assume "0 \<le> i \<and> i < 0 + nat n"
    with assms(3) obtain r where "urvs i = Fin r" "r \<le> 1" by auto
    then show "np_le (urvs i) (Fin 1)" by simp
  qed
  from MH_loop_constant [OF assms(1,2) this, of rvs initial "[]"] obtain x' where
    "MH_loop pdf rvs urvs (nat n) 0 (initial, []) =
       Inr (x', running_sums initial (map rvs [0..<nat n]))" by auto
  then have "MH initial pdf rvs urvs n = Inr (running_sums initial (map rvs [0..<nat n]))"
    by (simp add: MH_def)
  moreover from assms(2) have "acceptance (Fin c) (Fin c) = Fin 1" by (simp add: acceptance_same)
  ultimately show ?thesis by simp
qed

theorem MH_constant_density_witness:
  "(\<forall>v. const_pdf 3 v = Inr (Fin 3)) \<and> (0::real) < 3 \<and> (0::real) \<le> 1 \<and> (1::real) \<le> 1 \<and>
   MH (Fin 1) (const_pdf 3) (\<lambda>k. Fin (real k + 1)) (\<lambda>k. Fin 1) 2 = Inr [Fin 2, Fin 4]"
proof -
  have p: "\<forall>v. const_pdf 3 v = Inr (Fin 3)" by (simp add: const_pdf_def)
  have c: "(0::real) < 3" by simp
  have u: "\<forall>k<nat 2. \<exists>r. (\<lambda>k. Fin 1) k = Fin r \<and> 0 \<le> r \<and> r \<le> 1" by simp
  from MH_constant_density [OF p c u, of "Fin 1" "\<lambda>k. Fin (real k + 1)"]
  have m: "MH (Fin 1) (const_pdf 3) (\<lambda>k. Fin (real k + 1)) (\<lambda>k. Fin 1) 2 =
             Inr (running_sums (Fin 1) (map (\<lambda>k. Fin (real k + 1)) [0..<nat 2]))"
    by (rule conjunct2)
  have v: "running_sums (Fin 1) (map (\<lambda>k. Fin (real k + 1)) [0..<nat 2]) = [Fin 2, Fin 4]"
    by (simp add: upt_rec numeral_2_eq_2 example_sums)
  from m have r: "MH (Fin 1) (const_pdf 3) (\<lambda>k. Fin (real k + 1)) (\<lambda>k. Fin 1) 2 =
                    Inr [Fin 2, Fin 4]"
    by (simp only: v)
  have b: "(0::real) \<le> 1" "(1::real) \<le> 1" by simp_all
  show ?thesis by (rule conjI [OF p conjI [OF c conjI [OF b(1) conjI [OF b(2) r]]]])
qed

end
